theory Spec2Isabelle
  imports Main "HOL-Library.Multiset"
begin

section \<open>Python strings\<close>

text \<open>
  A Python \<^verbatim>\<open>str\<close> is a sequence of Unicode code points; it is modelled as a list of
  natural numbers, one per code point. \<open>str\<close> turns an ASCII literal into that form.
\<close>

type_synonym pystr = "nat list"

definition str :: "string \<Rightarrow> pystr" where
  "str s = map of_char s"

definition NL :: nat where
  "NL = 10"

definition SP :: nat where
  "SP = 32"

text \<open>\<^verbatim>\<open>s.startswith(p)\<close>\<close>

fun startswith :: "pystr \<Rightarrow> pystr \<Rightarrow> bool" where
  "startswith s [] = True"
| "startswith [] (p # ps) = False"
| "startswith (c # cs) (p # ps) = (c = p \<and> startswith cs ps)"

text \<open>\<^verbatim>\<open>sub in s\<close>\<close>

fun contains :: "pystr \<Rightarrow> pystr \<Rightarrow> bool" where
  "contains sub [] = (sub = [])"
| "contains sub (c # cs) = (startswith (c # cs) sub \<or> contains sub cs)"

text \<open>
  \<^verbatim>\<open>str.isspace\<close> on one code point: the white space of \<^verbatim>\<open>str.strip()\<close> called
  without an argument.
\<close>

definition isspace :: "nat \<Rightarrow> bool" where
  "isspace c = ((9 \<le> c \<and> c \<le> 13) \<or> (28 \<le> c \<and> c \<le> 32) \<or> c = 133 \<or> c = 160
     \<or> c = 5760 \<or> (8192 \<le> c \<and> c \<le> 8202) \<or> c = 8232 \<or> c = 8233 \<or> c = 8239
     \<or> c = 8287 \<or> c = 12288)"

definition strip :: "pystr \<Rightarrow> pystr" where
  "strip s = rev (dropWhile isspace (rev (dropWhile isspace s)))"

text \<open>
  \<^verbatim>\<open>s.replace(old, new)\<close>: every occurrence of \<open>old\<close>, found from the left without
  overlap, becomes \<open>new\<close>. With an empty \<open>old\<close> Python puts \<open>new\<close> before every
  character and at the end.
\<close>

function str_replace :: "pystr \<Rightarrow> pystr \<Rightarrow> pystr \<Rightarrow> pystr" where
  "str_replace old new [] = (if old = [] then new else [])"
| "str_replace old new (c # cs) =
     (if old = [] then new @ c # str_replace old new cs
      else if startswith (c # cs) old
        then new @ str_replace old new (drop (length old) (c # cs))
        else c # str_replace old new cs)"
  by pat_completeness auto
termination
  by (relation "measure (\<lambda>(old, new, s). length s)") auto

text \<open>\<^verbatim>\<open>s.split(sep)[0]\<close> for a separator of one character.\<close>

definition split_head :: "nat \<Rightarrow> pystr \<Rightarrow> pystr" where
  "split_head sep s = takeWhile (\<lambda>c. c \<noteq> sep) s"

text \<open>\<^verbatim>\<open>sep.join(xs)\<close>\<close>

fun join :: "pystr \<Rightarrow> pystr list \<Rightarrow> pystr" where
  "join sep [] = []"
| "join sep [x] = x"
| "join sep (x # y # ys) = x @ sep @ join sep (y # ys)"

section \<open>Markdown clean-up\<close>

text \<open>
  \<^verbatim>\<open>re.sub(r"\n{3,}", "\n\n", markdown)\<close>: the leftmost match is greedy, so it is a
  whole run of newlines; a run of three or more becomes two newlines.
\<close>

function re_sub_newlines :: "pystr \<Rightarrow> pystr" where
  "re_sub_newlines [] = []"
| "re_sub_newlines (c # cs) =
     (if 3 \<le> length (takeWhile (\<lambda>x. x = NL) (c # cs))
      then NL # NL # re_sub_newlines (dropWhile (\<lambda>x. x = NL) (c # cs))
      else c # re_sub_newlines cs)"
  by pat_completeness auto
termination
  by (relation "measure length") (auto simp: less_Suc_eq_le length_dropWhile_le split: if_splits)

text \<open>
  \<^verbatim>\<open>re.sub(r" +\n", "\n", markdown)\<close>: a match starts at a space and is the run of
  spaces from there together with the newline that follows the run; it becomes that
  newline alone. A run of spaces followed by anything else is kept.
\<close>

function re_sub_trailing :: "pystr \<Rightarrow> pystr" where
  "re_sub_trailing [] = []"
| "re_sub_trailing (c # cs) =
     (if c = SP \<and> startswith (dropWhile (\<lambda>x. x = SP) cs) [NL]
      then NL # re_sub_trailing (tl (dropWhile (\<lambda>x. x = SP) cs))
      else c # re_sub_trailing cs)"
  by pat_completeness auto
termination
proof (relation "measure length")
  show "wf (measure length)" by simp
next
  fix c :: nat and cs :: "nat list"
  have "length (tl (dropWhile (\<lambda>x. x = SP) cs)) \<le> length cs"
    using length_dropWhile_le [of "\<lambda>x. x = SP" cs] by simp
  then show "(tl (dropWhile (\<lambda>x. x = SP) cs), c # cs) \<in> measure length"
    by simp
next
  fix c :: nat and cs :: "nat list"
  show "(cs, c # cs) \<in> measure length" by simp
qed

text \<open>\<^verbatim>\<open>Paw._clean_markdown\<close>\<close>

definition clean_markdown :: "pystr \<Rightarrow> pystr" where
  "clean_markdown markdown = strip (re_sub_trailing (re_sub_newlines markdown))"

section \<open>The outside world\<close>

text \<open>
  The outcome of \<^verbatim>\<open>requests.get\<close> followed by \<^verbatim>\<open>raise_for_status\<close>: the request
  raises a \<^verbatim>\<open>RequestException\<close> (with its message), or a response arrives. A response
  carries the message of the \<^verbatim>\<open>HTTPError\<close> that \<^verbatim>\<open>raise_for_status\<close> raises (if the
  status is an error status), its Content-Type header (if present) and its text.
\<close>

datatype http_result =
  RequestException pystr
| Response "pystr option" "pystr option" pystr

text \<open>
  What the program does to the outside world and to its own queue, in order: the
  trace is a ghost record of the run and takes no part in any decision of the code,
  except that the number of requests made so far selects the next answer of the
  network.
\<close>

datatype event =
  Enqueue pystr int
| Dequeue pystr int
| Mark pystr
| Fetch pystr http_result
| Store pystr int
| Completion pystr

text \<open>
  The libraries the code calls, as parameters. \<open>http_get n url\<close> is the outcome of
  the request number \<open>n\<close> (counted from 0 within a call) when it is sent to \<open>url\<close>, so
  that two requests to one URL may be answered differently. \<open>find_hrefs\<close> is
  \<^verbatim>\<open>BeautifulSoup(text, "html.parser").find_all("a", href=True)\<close>, read as the list of
  the \<^verbatim>\<open>href\<close> values in document order; \<open>urljoin\<close> is \<^verbatim>\<open>urllib.parse.urljoin\<close>;
  \<open>netloc\<close> is \<^verbatim>\<open>urlparse(url).netloc\<close>; \<open>to_markdown\<close> is the removal of the tags of
  \<^verbatim>\<open>TAG_TO_REMOVE\<close> followed by \<^verbatim>\<open>html2text\<close>. \<^verbatim>\<open>urljoin\<close> and \<^verbatim>\<open>urlparse\<close> raise a
  \<^verbatim>\<open>ValueError\<close> on a malformed URL (an \<^verbatim>\<open>href\<close> such as \<^verbatim>\<open>https://[bad/x\<close>): the result
  \<open>None\<close> of \<open>urljoin\<close> and of \<open>netloc\<close> stands for that exception.
\<close>

record web =
  http_get :: "nat \<Rightarrow> pystr \<Rightarrow> http_result"
  find_hrefs :: "pystr \<Rightarrow> pystr list"
  urljoin :: "pystr \<Rightarrow> pystr \<Rightarrow> pystr option"
  netloc :: "pystr \<Rightarrow> pystr option"
  to_markdown :: "pystr \<Rightarrow> pystr"

fun is_fetch :: "event \<Rightarrow> bool" where
  "is_fetch (Fetch u r) = True"
| "is_fetch e = False"

definition n_requests :: "event list \<Rightarrow> nat" where
  "n_requests tr = length (filter is_fetch tr)"

text \<open>\<^verbatim>\<open>response.headers.get("Content-Type", "")\<close>\<close>

definition header_get :: "pystr option \<Rightarrow> pystr" where
  "header_get h = (case h of None \<Rightarrow> [] | Some v \<Rightarrow> v)"

datatype error =
  ValueError pystr
| ConnectionError pystr
| ExternalError pystr

section \<open>Links\<close>

text \<open>
  \<^verbatim>\<open>Paw._same_domain\<close>. It returns \<open>None\<close> when \<^verbatim>\<open>urlparse\<close> raises on one of the two
  URLs.
\<close>

definition same_domain :: "web \<Rightarrow> pystr \<Rightarrow> pystr \<Rightarrow> bool option" where
  "same_domain W url base_url =
     (case netloc W url of
        None \<Rightarrow> None
      | Some url_domain \<Rightarrow>
          (case netloc W base_url of
             None \<Rightarrow> None
           | Some base_domain \<Rightarrow>
               let url_domain = str_replace (str ''www.'') [] url_domain;
                   base_domain = str_replace (str ''www.'') [] base_domain
               in Some (url_domain = base_domain)))"

text \<open>
  \<^verbatim>\<open>Paw._extract_links\<close>, the loop over the anchors: the first argument is the list
  of the \<^verbatim>\<open>href\<close> values still to be looked at. An exception of \<^verbatim>\<open>urljoin\<close> or of
  \<^verbatim>\<open>_same_domain\<close> at any anchor leaves the method, which then returns no list at all:
  the result is \<open>None\<close>.
\<close>

fun links_of :: "web \<Rightarrow> pystr list \<Rightarrow> pystr \<Rightarrow> pystr list option" where
  "links_of W [] base_url = Some []"
| "links_of W (href # anchors) base_url =
     (if href = [] \<or> startswith href (str ''#'') then links_of W anchors base_url
      else
        (case urljoin W base_url href of
           None \<Rightarrow> None
         | Some absolute_url \<Rightarrow>
             let absolute_url = split_head 63 (split_head 35 absolute_url)
             in (case same_domain W absolute_url base_url of
                   None \<Rightarrow> None
                 | Some same \<Rightarrow>
                     if same
                     then map_option (\<lambda>links. absolute_url # links)
                            (links_of W anchors base_url)
                     else links_of W anchors base_url)))"

definition extract_links :: "web \<Rightarrow> pystr \<Rightarrow> pystr \<Rightarrow> pystr list option" where
  "extract_links W soup base_url = links_of W (find_hrefs W soup) base_url"

section \<open>Scraping one page\<close>

text \<open>
  \<^verbatim>\<open>Paw.scrape\<close>. It takes the trace so far and returns the trace it leaves. The
  \<^verbatim>\<open>ValueError\<close> for a URL without scheme is raised inside the \<^verbatim>\<open>try\<close> and so leaves
  through the handler \<^verbatim>\<open>except Exception\<close>, which wraps its message.
\<close>

definition scrape :: "web \<Rightarrow> pystr \<Rightarrow> event list \<Rightarrow> (error + pystr) \<times> event list" where
  "scrape W url tr =
     (if \<not> (startswith url (str ''http://'') \<or> startswith url (str ''https://''))
      then (Inl (ValueError (str ''Error processing '' @ url @ str '': ''
                   @ str ''Invalid URL: '' @ url)), tr)
      else
        let response = http_get W (n_requests tr) url;
            tr = tr @ [Fetch url response]
        in case response of
             RequestException e \<Rightarrow>
               (Inl (ConnectionError (str ''Error fetching URL '' @ url @ str '': '' @ e)), tr)
           | Response status_error ctype body \<Rightarrow>
               (case status_error of
                  Some e \<Rightarrow>
                    (Inl (ConnectionError (str ''Error fetching URL '' @ url @ str '': '' @ e)), tr)
                | None \<Rightarrow>
                    if \<not> contains (str ''text/html'') (header_get ctype)
                    then (Inl (ValueError (str ''Error processing '' @ url @ str '': ''
                                 @ str ''URL does not contain HTML content: '' @ url)), tr)
                    else (Inr (clean_markdown (to_markdown W body)), tr)))"

section \<open>Crawling\<close>

record crawl_state =
  queue :: "(pystr \<times> int) list"
  visited :: "pystr set"
  content_dict :: "(pystr \<times> pystr) list"
  trace :: "event list"

text \<open>\<^verbatim>\<open>content_dict[url] = markdown\<close> on a dictionary that keeps insertion order.\<close>

fun dict_set :: "pystr \<Rightarrow> pystr \<Rightarrow> (pystr \<times> pystr) list \<Rightarrow> (pystr \<times> pystr) list" where
  "dict_set k v [] = [(k, v)]"
| "dict_set k v ((k', v') # kvs) =
     (if k = k' then (k, v) # kvs else (k', v') # dict_set k v kvs)"

text \<open>
  The loop \<^verbatim>\<open>for link in links: if link not in visited: queue.append((link, depth + 1))\<close>.
\<close>

fun enqueue_links :: "pystr list \<Rightarrow> int \<Rightarrow> crawl_state \<Rightarrow> crawl_state" where
  "enqueue_links [] depth s = s"
| "enqueue_links (link # links) depth s =
     enqueue_links links depth
       (if link \<notin> visited s
        then s\<lparr>queue := queue s @ [(link, depth + 1)],
               trace := trace s @ [Enqueue link (depth + 1)]\<rparr>
        else s)"

text \<open>
  The body of the \<^verbatim>\<open>try\<close> of \<^verbatim>\<open>Paw.crawl\<close> for an entry that passed the test at the
  head of the loop. Every exception raised in it is caught by \<^verbatim>\<open>except Exception\<close>, so
  each failure ends the iteration with the state reached so far; \<^verbatim>\<open>continue\<close> for a
  response that is not HTML does the same. In particular, when \<^verbatim>\<open>_extract_links\<close>
  raises, the page is stored already and nothing is put on the queue. The spinner
  and \<^verbatim>\<open>time.sleep\<close> change nothing that is modelled.
\<close>

definition crawl_visit :: "web \<Rightarrow> int \<Rightarrow> pystr \<Rightarrow> int \<Rightarrow> crawl_state \<Rightarrow> crawl_state" where
  "crawl_visit W max_depth url depth s =
     (let s1 = s\<lparr>visited := insert url (visited s), trace := trace s @ [Mark url]\<rparr>;
          response = http_get W (n_requests (trace s1)) url;
          s2 = s1\<lparr>trace := trace s1 @ [Fetch url response]\<rparr>
      in case response of
           RequestException e \<Rightarrow> s2
         | Response status_error ctype body \<Rightarrow>
             (case status_error of
                Some e \<Rightarrow> s2
              | None \<Rightarrow>
                  if \<not> contains (str ''text/html'') (header_get ctype) then s2
                  else
                    (case scrape W url (trace s2) of
                       (Inl e, tr) \<Rightarrow> s2\<lparr>trace := tr\<rparr>
                     | (Inr markdown, tr) \<Rightarrow>
                         let s3 = s2\<lparr>content_dict := dict_set url markdown (content_dict s2),
                                      trace := tr @ [Store url depth]\<rparr>
                         in if depth < max_depth
                            then (case extract_links W body url of
                                    None \<Rightarrow> s3
                                  | Some links \<Rightarrow> enqueue_links links depth s3)
                            else s3)))"

text \<open>One iteration of \<^verbatim>\<open>while queue\<close>, for a queue that is not empty.\<close>

definition crawl_step :: "web \<Rightarrow> int \<Rightarrow> crawl_state \<Rightarrow> crawl_state" where
  "crawl_step W max_depth s =
     (case queue s of
        [] \<Rightarrow> s
      | (url, depth) # rest \<Rightarrow>
          let s' = s\<lparr>queue := rest, trace := trace s @ [Dequeue url depth]\<rparr>
          in if url \<in> visited s' \<or> depth > max_depth then s'
             else crawl_visit W max_depth url depth s')"

text \<open>
  The queue after one visit is the queue before it followed by entries one level
  deeper, and there are such entries only below the depth limit. This is what makes
  the loop end.
\<close>

lemma enqueue_links_queue:
  "queue (enqueue_links links depth s) =
     queue s @ map (\<lambda>l. (l, depth + 1)) (filter (\<lambda>l. l \<notin> visited s) links)"
  by (induction links depth s rule: enqueue_links.induct) simp_all

lemma enqueue_links_visited: "visited (enqueue_links links depth s) = visited s"
  by (induction links depth s rule: enqueue_links.induct) simp_all

lemma enqueue_links_content: "content_dict (enqueue_links links depth s) = content_dict s"
  by (induction links depth s rule: enqueue_links.induct) simp_all

lemma enqueue_links_trace:
  "trace (enqueue_links links depth s) =
     trace s @ map (\<lambda>l. Enqueue l (depth + 1)) (filter (\<lambda>l. l \<notin> visited s) links)"
  by (induction links depth s rule: enqueue_links.induct) simp_all

lemma crawl_visit_queue:
  "\<exists>new. queue (crawl_visit W max_depth url depth s) = queue s @ new \<and>
     (\<forall>e \<in> set new. snd e = depth + 1 \<and> depth < max_depth)"
  by (simp add: crawl_visit_def Let_def enqueue_links_queue
           split: http_result.split option.split prod.split sum.split)

definition crawl_weight :: "int \<Rightarrow> (pystr \<times> int) list \<Rightarrow> nat multiset" where
  "crawl_weight max_depth q = mset (map (\<lambda>(u, d). nat (max_depth - d + 1)) q)"

lemma crawl_step_decreases:
  assumes "queue s \<noteq> []"
  shows "(crawl_weight max_depth (queue (crawl_step W max_depth s)),
          crawl_weight max_depth (queue s)) \<in> mult {(a, b). a < b}"
proof -
  obtain url depth rest where q: "queue s = (url, depth) # rest"
    using assms by (cases "queue s") auto
  let ?x = "nat (max_depth - depth + 1)"
  let ?I = "crawl_weight max_depth rest"
  have old: "crawl_weight max_depth (queue s) = ?I + {# ?x #}"
    by (simp add: q crawl_weight_def)
  obtain new where new: "queue (crawl_step W max_depth s) = rest @ new"
    and small: "\<forall>e \<in> set new. snd e = depth + 1 \<and> depth < max_depth"
  proof (cases "url \<in> visited s \<or> depth > max_depth")
    case True
    then have "queue (crawl_step W max_depth s) = rest @ []"
      by (simp add: crawl_step_def q)
    then show ?thesis using that [of "[]"] by simp
  next
    case False
    let ?s' = "s\<lparr>queue := rest, trace := trace s @ [Dequeue url depth]\<rparr>"
    from crawl_visit_queue [of W max_depth url depth ?s']
    obtain new where "queue (crawl_visit W max_depth url depth ?s') = rest @ new"
      and "\<forall>e \<in> set new. snd e = depth + 1 \<and> depth < max_depth"
      by auto
    moreover have "crawl_step W max_depth s = crawl_visit W max_depth url depth ?s'"
      using False by (simp add: crawl_step_def q)
    ultimately show ?thesis using that by simp
  qed
  have "crawl_weight max_depth (queue (crawl_step W max_depth s)) =
          ?I + crawl_weight max_depth new"
    by (simp add: new crawl_weight_def)
  moreover have "\<forall>k \<in> set_mset (crawl_weight max_depth new).
                   \<exists>j \<in> set_mset {# ?x #}. (k, j) \<in> {(a, b). a < b}"
    using small by (auto simp: crawl_weight_def)
  ultimately show ?thesis
    unfolding old
    using one_step_implies_mult
            [of "{# ?x #}" "crawl_weight max_depth new" "{(a, b). a < b}" ?I]
    by simp
qed

text \<open>\<^verbatim>\<open>while queue: ...\<close>\<close>

function crawl_loop :: "web \<Rightarrow> int \<Rightarrow> crawl_state \<Rightarrow> crawl_state" where
  "crawl_loop W max_depth s =
     (if queue s = [] then s else crawl_loop W max_depth (crawl_step W max_depth s))"
  by pat_completeness auto
termination
proof (relation "inv_image (mult {(a, b). a < b})
                   (\<lambda>(W, max_depth, s). crawl_weight max_depth (queue s))")
  show "wf (inv_image (mult {(a::nat, b). a < b})
              (\<lambda>(W, max_depth, s). crawl_weight max_depth (queue s)))"
    using wf_less by (intro wf_inv_image wf_mult) (simp add: less_than_def [symmetric])
next
  fix W :: web and max_depth :: int and s :: crawl_state
  assume "queue s \<noteq> []"
  then show "((W, max_depth, crawl_step W max_depth s), (W, max_depth, s)) \<in>
    inv_image (mult {(a, b). a < b}) (\<lambda>(W, max_depth, s). crawl_weight max_depth (queue s))"
    by (simp add: crawl_step_decreases)
qed

declare crawl_loop.simps [simp del]

text \<open>
  The state \<^verbatim>\<open>Paw.crawl\<close> starts its loop in (the base URL at depth 0 in the queue,
  nothing visited, nothing stored), and the state in which the loop ends.
\<close>

definition crawl_init :: "pystr \<Rightarrow> crawl_state" where
  "crawl_init base_url =
     \<lparr>queue = [(base_url, 0)], visited = {}, content_dict = [],
      trace = [Enqueue base_url 0]\<rparr>"

definition crawl_run :: "web \<Rightarrow> pystr \<Rightarrow> int \<Rightarrow> crawl_state" where
  "crawl_run W base_url max_depth = crawl_loop W max_depth (crawl_init base_url)"

datatype crawl_result =
  Markdown pystr
| Mapping "(pystr \<times> pystr) list"

text \<open>The f-string \<^verbatim>\<open>f"URL: {url}\n\n{content}"\<close>\<close>

definition page_block :: "pystr \<times> pystr \<Rightarrow> pystr" where
  "page_block p = str ''URL: '' @ fst p @ [NL, NL] @ snd p"

text \<open>
  \<^verbatim>\<open>Paw.crawl\<close>: the error it raises or the value it returns, and the trace of the
  call.
\<close>

definition crawl :: "web \<Rightarrow> pystr \<Rightarrow> int \<Rightarrow> pystr \<Rightarrow> (error + crawl_result) \<times> event list" where
  "crawl W base_url max_depth format_type =
     (if \<not> (startswith base_url (str ''http://'') \<or> startswith base_url (str ''https://''))
      then (Inl (ValueError (str ''Invalid URL: '' @ base_url)), [])
      else
        let s = crawl_run W base_url max_depth
        in (Inr (if format_type = str ''markdown''
                 then Markdown (join ([NL, NL] @ str ''---'' @ [NL, NL])
                                  (map page_block (content_dict s)))
                 else Mapping (content_dict s)),
            trace s))"

section \<open>Extraction\<close>

text \<open>
  What \<^verbatim>\<open>Paw.extract\<close> calls besides the crawl: the environment variable
  \<^verbatim>\<open>OPENAI_API_KEY\<close>; the constructor \<^verbatim>\<open>OpenAI(api_key=...)\<close>, which returns or
  raises (\<open>Some\<close> the message); the completion service, which returns the content of
  the first message or raises; and \<^verbatim>\<open>output_format(**json.loads(content))\<close>, which
  builds the caller's value or raises. The model name and the temperature are
  handed to the service unchanged and are not modelled. The method is named
  \<open>paw_extract\<close> here, since \<open>extract\<close> is a command of Isabelle.
\<close>

record 'r llm =
  environ_api_key :: "pystr option"
  new_client :: "pystr option \<Rightarrow> pystr option"
  chat_parse :: "pystr \<Rightarrow> pystr + pystr"
  build_output :: "pystr \<Rightarrow> pystr + 'r"

definition paw_extract ::
  "web \<Rightarrow> 'r llm \<Rightarrow> pystr \<Rightarrow> pystr option \<Rightarrow> int \<Rightarrow> (error + 'r) \<times> event list" where
  "paw_extract W L base_url api_key max_depth =
     (let api_key = (if api_key = None \<or> api_key = Some [] then environ_api_key L else api_key)
      in case new_client L api_key of
           Some e \<Rightarrow> (Inl (ExternalError e), [])
         | None \<Rightarrow>
             (case crawl W base_url max_depth (str ''markdown'') of
                (Inl e, tr) \<Rightarrow> (Inl e, tr)
              | (Inr (Mapping d), tr) \<Rightarrow>
                  (Inl (ValueError (str ''Content markdown must be a string'')), tr)
              | (Inr (Markdown content_markdown), tr) \<Rightarrow>
                  if strip content_markdown = []
                  then (Inl (ValueError (str ''Content markdown is empty'')), tr)
                  else
                    let tr = tr @ [Completion content_markdown]
                    in case chat_parse L content_markdown of
                         Inl e \<Rightarrow> (Inl (ExternalError e), tr)
                       | Inr content \<Rightarrow>
                           (case build_output L content of
                              Inl e \<Rightarrow> (Inl (ExternalError e), tr)
                            | Inr v \<Rightarrow> (Inr v, tr))))"

section \<open>Reading a trace\<close>

text \<open>
  A response that lets the crawl go on to the markdown conversion: no error status
  and a Content-Type that contains \<^verbatim>\<open>text/html\<close>. A failed fetch: the request raised,
  or the status is an error status.
\<close>

definition html_ok :: "http_result \<Rightarrow> bool" where
  "html_ok r = (case r of
      RequestException e \<Rightarrow> False
    | Response status_error ctype body \<Rightarrow>
        status_error = None \<and> contains (str ''text/html'') (header_get ctype))"

definition failed :: "http_result \<Rightarrow> bool" where
  "failed r = (case r of
      RequestException e \<Rightarrow> True
    | Response status_error ctype body \<Rightarrow> status_error \<noteq> None)"

fun fetches_of :: "pystr \<Rightarrow> event list \<Rightarrow> http_result list" where
  "fetches_of u [] = []"
| "fetches_of u (Fetch v r # tr) = (if v = u then r # fetches_of u tr else fetches_of u tr)"
| "fetches_of u (e # tr) = fetches_of u tr"

section \<open>The specification's registrable domain\<close>

text \<open>
  The registrable domain as the specification words it: the host with a leading
  \<^verbatim>\<open>www.\<close> ignored. It is compared with what \<open>same_domain\<close> computes.
\<close>

definition registrable_domain :: "pystr \<Rightarrow> pystr" where
  "registrable_domain host = (if startswith host (str ''www.'') then drop 4 host else host)"

section \<open>Concrete webs\<close>

text \<open>
  Small webs on which the definitions are evaluated. \<open>url_netloc\<close> stands for
  \<^verbatim>\<open>urlparse(url).netloc\<close> on a URL of the form \<^verbatim>\<open>scheme://netloc/path?query#fragment\<close>:
  what lies between the \<^verbatim>\<open>//\<close> after the scheme and the next \<^verbatim>\<open>/\<close>, \<^verbatim>\<open>?\<close> or \<^verbatim>\<open>#\<close>.
  In these webs every \<^verbatim>\<open>href\<close> is an absolute URL, for which \<^verbatim>\<open>urljoin\<close> returns the
  \<^verbatim>\<open>href\<close> itself.

  In \<open>web_site\<close> the page \<open>url_a\<close> links to itself, twice to \<open>url_b\<close>, twice to
  \<open>url_c\<close> (whose request times out) and to another site; \<open>url_b\<close> links back to
  \<open>url_a\<close>.
  \<open>web_plain\<close> answers every request with plain text. \<open>web_shop\<close> serves one page
  with one link. In \<open>web_bad\<close> the page \<open>url_a\<close> links to \<^verbatim>\<open>https://[bad/x\<close>, on which
  \<^verbatim>\<open>urljoin\<close> raises, and to \<open>url_b\<close>.
\<close>

definition url_netloc :: "pystr \<Rightarrow> pystr" where
  "url_netloc u =
     (let rest = drop 1 (dropWhile (\<lambda>c. c \<noteq> 58) u)
      in if startswith rest (str ''//'')
         then takeWhile (\<lambda>c. c \<noteq> 47 \<and> c \<noteq> 63 \<and> c \<noteq> 35) (drop 2 rest)
         else [])"

definition url_a :: pystr where "url_a = str ''https://a.test/''"
definition url_b :: pystr where "url_b = str ''https://a.test/b''"
definition url_c :: pystr where "url_c = str ''https://www.a.test/c''"

definition resp_a :: http_result where
  "resp_a = Response None (Some (str ''text/html'')) (str ''A'')"

definition resp_b :: http_result where
  "resp_b = Response None (Some (str ''text/html; charset=utf-8'')) (str ''B'')"

definition web_site :: web where
  "web_site =
     \<lparr>http_get = (\<lambda>n u.
         if u = url_a then resp_a
         else if u = url_b then resp_b
         else RequestException (str ''timed out'')),
      find_hrefs = (\<lambda>soup.
         if soup = str ''A''
         then [url_a, url_c, url_b, url_b, url_c, str ''https://other.test/'']
         else if soup = str ''B'' then [url_a]
         else []),
      urljoin = (\<lambda>base href. Some href),
      netloc = (\<lambda>u. Some (url_netloc u)),
      to_markdown = (\<lambda>body. body)\<rparr>"

definition web_plain :: web where
  "web_plain =
     \<lparr>http_get = (\<lambda>n u. Response None (Some (str ''text/plain'')) (str ''hello'')),
      find_hrefs = (\<lambda>soup. []),
      urljoin = (\<lambda>base href. Some href),
      netloc = (\<lambda>u. Some (url_netloc u)),
      to_markdown = (\<lambda>body. body)\<rparr>"

definition web_shop :: web where
  "web_shop =
     \<lparr>http_get = (\<lambda>n u. Response None (Some (str ''text/html'')) (str ''shop'')),
      find_hrefs = (\<lambda>soup. [str ''https://shop.www.example.com/x'']),
      urljoin = (\<lambda>base href. Some href),
      netloc = (\<lambda>u. Some (url_netloc u)),
      to_markdown = (\<lambda>body. body)\<rparr>"

definition web_bad :: web where
  "web_bad =
     \<lparr>http_get = (\<lambda>n u. resp_a),
      find_hrefs = (\<lambda>soup. [str ''https://[bad/x'', url_b]),
      urljoin = (\<lambda>base href. if href = str ''https://[bad/x'' then None else Some href),
      netloc = (\<lambda>u. Some (url_netloc u)),
      to_markdown = (\<lambda>body. body)\<rparr>"

definition llm_echo :: "pystr llm" where
  "llm_echo =
     \<lparr>environ_api_key = Some (str ''key''),
      new_client = (\<lambda>k. None),
      chat_parse = (\<lambda>doc. Inr doc),
      build_output = (\<lambda>content. Inr content)\<rparr>"

section \<open>Invariants of the loop\<close>

text \<open>
  No entry of the queue lies below the depth limit, and none was ever put on the
  queue or taken from it.
\<close>

definition depth_inv :: "int \<Rightarrow> crawl_state \<Rightarrow> bool" where
  "depth_inv max_depth s =
     ((\<forall>e \<in> set (queue s). snd e \<le> max_depth)
      \<and> (\<forall>u d. Enqueue u d \<in> set (trace s) \<longrightarrow> d \<le> max_depth)
      \<and> (\<forall>u d. Dequeue u d \<in> set (trace s) \<longrightarrow> d \<le> max_depth))"


text \<open>
  Every stored page was stored while an entry within the depth limit was processed,
  and every key of the dictionary was stored.
\<close>

definition store_inv :: "int \<Rightarrow> crawl_state \<Rightarrow> bool" where
  "store_inv max_depth s =
     ((\<forall>u d. Store u d \<in> set (trace s) \<longrightarrow> d \<le> max_depth \<and> Dequeue u d \<in> set (trace s))
      \<and> (\<forall>u c. (u, c) \<in> set (content_dict s) \<longrightarrow> (\<exists>d. Store u d \<in> set (trace s))))"


text \<open>
  A URL that is not visited has not been marked or requested; a URL is marked at
  most once; and the answers to the requests for one URL are none, one, or two of
  which the first led on to the markdown conversion.
\<close>

definition fetch_inv :: "crawl_state \<Rightarrow> bool" where
  "fetch_inv s =
     (\<forall>u. (u \<notin> visited s \<longrightarrow> fetches_of u (trace s) = [] \<and> count_list (trace s) (Mark u) = 0)
        \<and> count_list (trace s) (Mark u) \<le> 1
        \<and> (fetches_of u (trace s) = []
            \<or> (\<exists>r. fetches_of u (trace s) = [r])
            \<or> (\<exists>r1 r2. fetches_of u (trace s) = [r1, r2] \<and> html_ok r1)))"


text \<open>
  \<open>marked_before M tr\<close>: every request of \<open>tr\<close> is for a URL of \<open>M\<close> or one marked
  earlier in \<open>tr\<close>. \<open>no_retry tr\<close>: no failed request of \<open>tr\<close> is followed by a
  request for the same URL.
\<close>

fun marked_before :: "pystr set \<Rightarrow> event list \<Rightarrow> bool" where
  "marked_before M [] = True"
| "marked_before M (Mark u # tr) = marked_before (insert u M) tr"
| "marked_before M (Fetch u r # tr) = (u \<in> M \<and> marked_before M tr)"
| "marked_before M (e # tr) = marked_before M tr"

fun no_retry :: "event list \<Rightarrow> bool" where
  "no_retry [] = True"
| "no_retry (Fetch u r # tr) = ((failed r \<longrightarrow> fetches_of u tr = []) \<and> no_retry tr)"
| "no_retry (e # tr) = no_retry tr"

definition order_inv :: "crawl_state \<Rightarrow> bool" where
  "order_inv s =
     ((\<forall>u. u \<notin> visited s \<longrightarrow> fetches_of u (trace s) = [])
      \<and> (\<forall>u. Mark u \<in> set (trace s) \<longrightarrow> u \<in> visited s)
      \<and> marked_before {} (trace s)
      \<and> no_retry (trace s))"


text \<open>
  The entries put on the queue so far are, in order, the entries taken from it
  followed by those that wait on it.
\<close>

fun enqueued :: "event list \<Rightarrow> (pystr \<times> int) list" where
  "enqueued [] = []"
| "enqueued (Enqueue u d # tr) = (u, d) # enqueued tr"
| "enqueued (e # tr) = enqueued tr"

fun dequeued :: "event list \<Rightarrow> (pystr \<times> int) list" where
  "dequeued [] = []"
| "dequeued (Dequeue u d # tr) = (u, d) # dequeued tr"
| "dequeued (e # tr) = dequeued tr"

definition fifo_inv :: "crawl_state \<Rightarrow> bool" where
  "fifo_inv s = (enqueued (trace s) = dequeued (trace s) @ queue s)"


section \<open>The shape of one iteration\<close>

text \<open>A property kept by every iteration holds when the loop ends.\<close>

lemma crawl_loop_invariant:
  assumes "I s" and "\<And>s. I s \<Longrightarrow> queue s \<noteq> [] \<Longrightarrow> I (crawl_step W max_depth s)"
  shows "I (crawl_loop W max_depth s)"
  using assms
proof (induction W max_depth s rule: crawl_loop.induct)
  case (1 W max_depth s)
  show ?case
  proof (cases "queue s = []")
    case True
    have "crawl_loop W max_depth s = s" using True by (subst crawl_loop.simps) simp
    then show ?thesis using "1.prems"(1) by simp
  next
    case False
    have "I (crawl_step W max_depth s)"
      using "1.prems"(1) False by (rule "1.prems"(2))
    with False have "I (crawl_loop W max_depth (crawl_step W max_depth s))"
      using "1.prems"(2) by (rule "1.IH")
    moreover have "crawl_loop W max_depth s = crawl_loop W max_depth (crawl_step W max_depth s)" 
      using False by (subst crawl_loop.simps) simp
    ultimately show ?thesis by simp
  qed
qed

text \<open>
  A visit ends in one of three ways: after the first request; after the request of
  \<open>scrape\<close>, which failed; or with the page stored and its unvisited links in the
  queue.
\<close>

lemma crawl_visit_cases:
  obtains
    (single) r1 where
      "crawl_visit W max_depth url depth s =
         s\<lparr>visited := insert url (visited s), trace := trace s @ [Mark url, Fetch url r1]\<rparr>"
  | (refetch) r1 r2 where "html_ok r1"
      "crawl_visit W max_depth url depth s =
         s\<lparr>visited := insert url (visited s),
           trace := trace s @ [Mark url, Fetch url r1, Fetch url r2]\<rparr>"
  | (stored) r1 r2 markdown links where "html_ok r1" 
      "links \<noteq> [] \<Longrightarrow> depth < max_depth"
      "crawl_visit W max_depth url depth s =
         s\<lparr>queue := queue s @ map (\<lambda>l. (l, depth + 1)) links,
           visited := insert url (visited s),
           content_dict := dict_set url markdown (content_dict s),
           trace := trace s @ [Mark url, Fetch url r1, Fetch url r2, Store url depth]
                      @ map (\<lambda>l. Enqueue l (depth + 1)) links\<rparr>"
proof -
  let ?r1 = "http_get W (n_requests (trace s)) url"
  let ?tr1 = "trace s @ [Mark url, Fetch url ?r1]"
  let ?s2 = "s\<lparr>visited := insert url (visited s), trace := ?tr1\<rparr>"
  show thesis
  proof (cases "html_ok ?r1")
    case False
    then have "crawl_visit W max_depth url depth s = ?s2"
      by (auto simp: crawl_visit_def Let_def html_ok_def n_requests_def split: http_result.splits option.splits)
    then show thesis by (rule single)
  next
    case True
    then obtain ctype body where r1: "?r1 = Response None ctype body"
      and html: "contains (str ''text/html'') (header_get ctype)"
      by (auto simp: html_ok_def split: http_result.splits)
    show thesis
    proof (cases "fst (scrape W url ?tr1)")
      case (Inl e)
      have "snd (scrape W url ?tr1) = ?tr1 \<or> (\<exists>r2. snd (scrape W url ?tr1) = ?tr1 @ [Fetch url r2])"
        by (simp add: scrape_def Let_def split: http_result.splits option.splits)
      then show thesis
      proof
        assume "snd (scrape W url ?tr1) = ?tr1"
        then have "scrape W url ?tr1 = (Inl e, ?tr1)" using Inl by (simp add: prod_eq_iff)
        then have "crawl_visit W max_depth url depth s = ?s2"
          using r1 html by (simp add: crawl_visit_def Let_def n_requests_def)
        then show thesis by (rule single)
      next
        assume "\<exists>r2. snd (scrape W url ?tr1) = ?tr1 @ [Fetch url r2]"
        then obtain r2 where "snd (scrape W url ?tr1) = ?tr1 @ [Fetch url r2]" ..
        then have "scrape W url ?tr1 = (Inl e, ?tr1 @ [Fetch url r2])" using Inl by (simp add: prod_eq_iff)
        then have "crawl_visit W max_depth url depth s =
           s\<lparr>visited := insert url (visited s), trace := trace s @ [Mark url, Fetch url ?r1, Fetch url r2]\<rparr>"
          using r1 html by (simp add: crawl_visit_def Let_def n_requests_def)
        then show thesis using True by (rule refetch [rotated])
      qed
    next
      case (Inr markdown)
      then obtain r2 where "snd (scrape W url ?tr1) = ?tr1 @ [Fetch url r2]"
        by (auto simp: scrape_def Let_def split: http_result.splits option.splits if_splits)
      then have sc: "scrape W url ?tr1 = (Inr markdown, ?tr1 @ [Fetch url r2])"
        using Inr by (simp add: prod_eq_iff)
      let ?links = "if depth < max_depth
        then (case extract_links W body url of
                None \<Rightarrow> []
              | Some links \<Rightarrow> filter (\<lambda>l. l \<notin> insert url (visited s)) links)
        else []"
      have "crawl_visit W max_depth url depth s =
         s\<lparr>queue := queue s @ map (\<lambda>l. (l, depth + 1)) ?links,
           visited := insert url (visited s),
           content_dict := dict_set url markdown (content_dict s),
           trace := trace s @ [Mark url, Fetch url ?r1, Fetch url r2, Store url depth]
                      @ map (\<lambda>l. Enqueue l (depth + 1)) ?links\<rparr>"
        using r1 html sc
        by (simp add: crawl_visit_def Let_def n_requests_def enqueue_links_queue enqueue_links_trace
              enqueue_links_visited enqueue_links_content crawl_state.equality
              split: option.split)
      moreover have "?links \<noteq> [] \<Longrightarrow> depth < max_depth" by (simp split: if_splits)
      ultimately show thesis using True stored by blast
    qed
  qed
qed

text \<open>The same for a whole iteration, with the entry it takes from the queue.\<close>

lemma crawl_step_cases:
  assumes "queue s \<noteq> []"
  obtains
    (skip) url depth rest where "queue s = (url, depth) # rest"
      "url \<in> visited s \<or> depth > max_depth"
      "crawl_step W max_depth s = s\<lparr>queue := rest, trace := trace s @ [Dequeue url depth]\<rparr>"
  | (visit1) url depth rest r1 where "queue s = (url, depth) # rest"
      "url \<notin> visited s" "depth \<le> max_depth"
      "crawl_step W max_depth s =
         s\<lparr>queue := rest, visited := insert url (visited s),
           trace := trace s @ [Dequeue url depth, Mark url, Fetch url r1]\<rparr>"
  | (visit2) url depth rest r1 r2 where "queue s = (url, depth) # rest"
      "url \<notin> visited s" "depth \<le> max_depth" "html_ok r1"
      "crawl_step W max_depth s =
         s\<lparr>queue := rest, visited := insert url (visited s),
           trace := trace s @ [Dequeue url depth, Mark url, Fetch url r1, Fetch url r2]\<rparr>"
  | (visit3) url depth rest r1 r2 markdown links where "queue s = (url, depth) # rest"
      "url \<notin> visited s" "depth \<le> max_depth" "html_ok r1"
      "links \<noteq> [] \<Longrightarrow> depth < max_depth"
      "crawl_step W max_depth s =
         s\<lparr>queue := rest @ map (\<lambda>l. (l, depth + 1)) links,
           visited := insert url (visited s),
           content_dict := dict_set url markdown (content_dict s),
           trace := trace s @ [Dequeue url depth, Mark url, Fetch url r1, Fetch url r2,
                               Store url depth] @ map (\<lambda>l. Enqueue l (depth + 1)) links\<rparr>"
proof -
  obtain url depth rest where q: "queue s = (url, depth) # rest"
    using assms by (cases "queue s") auto
  let ?s' = "s\<lparr>queue := rest, trace := trace s @ [Dequeue url depth]\<rparr>"
  show thesis
  proof (cases "url \<in> visited s \<or> depth > max_depth")
    case True
    then have "crawl_step W max_depth s = ?s'" by (simp add: crawl_step_def q)
    with q True show thesis by (rule skip)
  next
    case False
    then have st: "crawl_step W max_depth s = crawl_visit W max_depth url depth ?s'"
      by (simp add: crawl_step_def q)
    from False have nv: "url \<notin> visited s" and le: "depth \<le> max_depth" by auto
    show thesis
    proof (cases rule: crawl_visit_cases [of W max_depth url depth ?s'])
      case (single r1)
      then have "crawl_step W max_depth s =
         s\<lparr>queue := rest, visited := insert url (visited s),
           trace := trace s @ [Dequeue url depth, Mark url, Fetch url r1]\<rparr>"
        by (simp add: st)
      with q nv le show thesis by (rule visit1)
    next
      case (refetch r1 r2)
      then have "crawl_step W max_depth s =
         s\<lparr>queue := rest, visited := insert url (visited s),
           trace := trace s @ [Dequeue url depth, Mark url, Fetch url r1, Fetch url r2]\<rparr>"
        by (simp add: st)
      with q nv le refetch(1) show thesis by (rule visit2)
    next
      case (stored r1 r2 markdown links)
      then have "crawl_step W max_depth s =
         s\<lparr>queue := rest @ map (\<lambda>l. (l, depth + 1)) links,
           visited := insert url (visited s),
           content_dict := dict_set url markdown (content_dict s),
           trace := trace s @ [Dequeue url depth, Mark url, Fetch url r1, Fetch url r2,
                               Store url depth] @ map (\<lambda>l. Enqueue l (depth + 1)) links\<rparr>"
        by (simp add: st)
      with q nv le stored(1,2) show thesis by (rule visit3)
    qed
  qed
qed


text \<open>Unfolding the loop once.\<close>

lemma crawl_loop_done: "queue s = [] \<Longrightarrow> crawl_loop W max_depth s = s"
  by (subst crawl_loop.simps) simp

lemma crawl_loop_unfold:
  "queue s \<noteq> [] \<Longrightarrow> crawl_loop W max_depth s = crawl_loop W max_depth (crawl_step W max_depth s)"
  by (subst crawl_loop.simps) simp


text \<open>
  When the first answer for the base URL does not lead to the markdown conversion,
  the loop ends after one iteration.
\<close>

lemma crawl_run_first_fetch_not_html:
  assumes "\<not> html_ok (http_get W 0 base_url)"
  shows "crawl_run W base_url max_depth =
     (if 0 > max_depth
      then \<lparr>queue = [], visited = {}, content_dict = [],
            trace = [Enqueue base_url 0, Dequeue base_url 0]\<rparr>
      else \<lparr>queue = [], visited = {base_url}, content_dict = [],
            trace = [Enqueue base_url 0, Dequeue base_url 0, Mark base_url,
                     Fetch base_url (http_get W 0 base_url)]\<rparr>)"
proof -
  let ?s = "crawl_step W max_depth (crawl_init base_url)"
  have step: "?s =
     (if 0 > max_depth
      then \<lparr>queue = [], visited = {}, content_dict = [],
            trace = [Enqueue base_url 0, Dequeue base_url 0]\<rparr>
      else \<lparr>queue = [], visited = {base_url}, content_dict = [],
            trace = [Enqueue base_url 0, Dequeue base_url 0, Mark base_url,
                     Fetch base_url (http_get W 0 base_url)]\<rparr>)"
    using assms
    by (auto simp: crawl_step_def crawl_init_def crawl_visit_def Let_def n_requests_def
          html_ok_def split: http_result.splits option.splits)
  then have "queue ?s = []" by (simp split: if_splits)
  then have "crawl_loop W max_depth ?s = ?s" by (rule crawl_loop_done)
  moreover have "crawl_run W base_url max_depth = crawl_loop W max_depth ?s"
    unfolding crawl_run_def by (rule crawl_loop_unfold) (simp add: crawl_init_def)
  ultimately show ?thesis using step by simp
qed


section \<open>The crawl of a concrete site\<close>

text \<open>The crawl of \<open>web_site\<close> from \<open>url_a\<close> with depth limit 1, step by step.\<close>

lemma web_site_urls_distinct:
  "url_a \<noteq> url_b" "url_a \<noteq> url_c" "url_b \<noteq> url_c"
  "url_b \<noteq> url_a" "url_c \<noteq> url_a" "url_c \<noteq> url_b"
  by (simp_all add: url_a_def url_b_def url_c_def str_def)

lemma web_site_urls_http:
  "startswith url_a (str ''https://'')" "startswith url_b (str ''https://'')"
  "startswith url_c (str ''https://'')"
  by (simp_all add: url_a_def url_b_def url_c_def str_def)

lemma web_site_get:
  "http_get web_site n url_a = resp_a" "http_get web_site n url_b = resp_b"
  "http_get web_site n url_c = RequestException (str ''timed out'')"
  by (simp_all add: web_site_def web_site_urls_distinct)

lemma web_site_html: "html_ok resp_a" "html_ok resp_b"
  by (simp_all add: html_ok_def resp_a_def resp_b_def header_get_def str_def)

lemma web_site_links_a:
  "extract_links web_site (str ''A'') url_a = Some [url_a, url_c, url_b, url_b, url_c]"
  by (simp add: extract_links_def web_site_def same_domain_def url_netloc_def split_head_def
        url_a_def url_b_def url_c_def str_def Let_def)

lemma web_site_scrape:
  "scrape web_site url_a tr = (Inr (str ''A''), tr @ [Fetch url_a resp_a])"
  "scrape web_site url_b tr = (Inr (str ''B''), tr @ [Fetch url_b resp_b])"
  using web_site_html
  by (simp_all add: scrape_def web_site_urls_http web_site_get Let_def html_ok_def resp_a_def
        resp_b_def)
     (simp_all add: web_site_def clean_markdown_def strip_def isspace_def NL_def SP_def str_def)

lemma web_site_visit_a:
  "url_a \<notin> visited s \<Longrightarrow> crawl_visit web_site max_depth url_a depth s =
     (let s3 = s\<lparr>visited := insert url_a (visited s),
                  content_dict := dict_set url_a (str ''A'') (content_dict s),
                  trace := trace s @ [Mark url_a, Fetch url_a resp_a, Fetch url_a resp_a,
                                       Store url_a depth]\<rparr>
      in if depth < max_depth then enqueue_links [url_a, url_c, url_b, url_b, url_c] depth s3 else s3)"
  using web_site_html(1)
  by (simp add: crawl_visit_def web_site_get web_site_scrape Let_def html_ok_def resp_a_def
        web_site_links_a)

lemma web_site_visit_b:
  "crawl_visit web_site 1 url_b 1 s =
     s\<lparr>visited := insert url_b (visited s),
       content_dict := dict_set url_b (str ''B'') (content_dict s),
       trace := trace s @ [Mark url_b, Fetch url_b resp_b, Fetch url_b resp_b, Store url_b 1]\<rparr>"
  using web_site_html(2)
  by (simp add: crawl_visit_def web_site_get web_site_scrape Let_def html_ok_def resp_b_def)

lemma web_site_visit_c:
  "crawl_visit web_site max_depth url_c depth s =
     s\<lparr>visited := insert url_c (visited s),
       trace := trace s @ [Mark url_c, Fetch url_c (RequestException (str ''timed out''))]\<rparr>"
  by (simp add: crawl_visit_def web_site_get Let_def)

lemma web_site_step1:
  "crawl_step web_site 1 (crawl_init url_a) =
     \<lparr>queue = [(url_c, 1), (url_b, 1), (url_b, 1), (url_c, 1)], visited = {url_a},
      content_dict = [(url_a, str ''A'')],
      trace = [Enqueue url_a 0, Dequeue url_a 0, Mark url_a, Fetch url_a resp_a,
               Fetch url_a resp_a, Store url_a 0, Enqueue url_c 1, Enqueue url_b 1,
               Enqueue url_b 1, Enqueue url_c 1]\<rparr>"
  by (simp add: crawl_step_def crawl_init_def web_site_visit_a web_site_urls_distinct)

lemma web_site_run:
  "crawl_run web_site url_a 1 =
     \<lparr>queue = [], visited = {url_b, url_c, url_a},
      content_dict = [(url_a, str ''A''), (url_b, str ''B'')],
      trace = [Enqueue url_a 0, Dequeue url_a 0, Mark url_a, Fetch url_a resp_a,
               Fetch url_a resp_a, Store url_a 0, Enqueue url_c 1, Enqueue url_b 1,
               Enqueue url_b 1, Enqueue url_c 1, Dequeue url_c 1, Mark url_c,
               Fetch url_c (RequestException (str ''timed out'')), Dequeue url_b 1,
               Mark url_b, Fetch url_b resp_b, Fetch url_b resp_b, Store url_b 1,
               Dequeue url_b 1, Dequeue url_c 1]\<rparr>"
  unfolding crawl_run_def
  apply (subst crawl_loop_unfold, simp add: crawl_init_def)
  apply (simp only: web_site_step1)
  apply (subst crawl_loop_unfold, simp)
  apply (simp add: crawl_step_def web_site_visit_c web_site_urls_distinct)
  apply (subst crawl_loop_unfold, simp)
  apply (simp add: crawl_step_def web_site_visit_b web_site_urls_distinct)
  apply (subst crawl_loop_unfold, simp)
  apply (simp add: crawl_step_def)
  apply (subst crawl_loop_unfold, simp)
  apply (simp add: crawl_step_def)
  apply (subst crawl_loop_done, simp)
  apply simp
  done


section \<open>Markdown clean-up is not idempotent\<close>

text \<open>
  C2. The specification states that the normalisation of \<^verbatim>\<open>_clean_markdown\<close> is
  idempotent. The code collapses the runs of newlines first and removes the spaces
  before a newline afterwards, so lines that hold only spaces leave a run of three
  newlines behind, which a second application collapses: on \<^verbatim>\<open>"a\n \n \nb"\<close> the
  first application gives \<^verbatim>\<open>"a\n\n\nb"\<close> and the second gives \<^verbatim>\<open>"a\n\nb"\<close>.
\<close>

theorem clean_markdown_twice_differs:
  "clean_markdown (str ''a'' @ [NL, SP, NL, SP, NL] @ str ''b'')
     = str ''a'' @ [NL, NL, NL] @ str ''b''
   \<and> clean_markdown (clean_markdown (str ''a'' @ [NL, SP, NL, SP, NL] @ str ''b''))
     = str ''a'' @ [NL, NL] @ str ''b''"
  by (simp add: clean_markdown_def strip_def isspace_def str_def NL_def SP_def)

section \<open>Links across domains\<close>

text \<open>
  C3. The specification states that link extraction returns a link only if its
  registrable domain, the host with a leading \<^verbatim>\<open>www.\<close> ignored, equals that of the
  base URL. \<^verbatim>\<open>_same_domain\<close> removes every occurrence of \<^verbatim>\<open>www.\<close> from both hosts
  (\<^verbatim>\<open>replace\<close>), although its comment speaks of the prefix. For the base
  \<^verbatim>\<open>https://shop.example.com/\<close> the link \<^verbatim>\<open>https://shop.www.example.com/x\<close> is
  returned, while the two registrable domains differ.
\<close>

theorem extract_links_keeps_other_domain:
  "extract_links web_shop (str ''shop'') (str ''https://shop.example.com/'')
     = Some [str ''https://shop.www.example.com/x'']
   \<and> registrable_domain (url_netloc (str ''https://shop.www.example.com/x''))
       = str ''shop.www.example.com''
   \<and> registrable_domain (url_netloc (str ''https://shop.example.com/''))
       = str ''shop.example.com''"
  by (simp add: extract_links_def web_shop_def same_domain_def url_netloc_def split_head_def registrable_domain_def str_def Let_def)


section \<open>URLs without scheme\<close>

text \<open>
  C8. For a URL that starts neither with \<^verbatim>\<open>http://\<close> nor with \<^verbatim>\<open>https://\<close>, both
  \<open>scrape\<close> and \<open>crawl\<close> fail with a \<^verbatim>\<open>ValueError\<close> that names the invalid URL, and
  no request is made: \<open>scrape\<close> leaves the trace as it found it, and the trace of
  \<open>crawl\<close> is empty.
\<close>

theorem invalid_url_rejected:
  assumes "\<not> startswith url (str ''http://'')" and "\<not> startswith url (str ''https://'')"
  shows "scrape W url tr =
           (Inl (ValueError (str ''Error processing '' @ url @ str '': ''
                   @ str ''Invalid URL: '' @ url)), tr)
         \<and> crawl W url max_depth format_type =
           (Inl (ValueError (str ''Invalid URL: '' @ url)), [])"
  using assms by (simp add: scrape_def crawl_def)


text \<open>The theorem at the URL \<^verbatim>\<open>a.test/index\<close>.\<close>

theorem invalid_url_rejected_witness:
  "\<not> startswith (str ''a.test/index'') (str ''http://'')
   \<and> \<not> startswith (str ''a.test/index'') (str ''https://'')
   \<and> scrape web_plain (str ''a.test/index'') [] =
         (Inl (ValueError (str ''Error processing a.test/index: Invalid URL: a.test/index'')), [])
   \<and> crawl web_plain (str ''a.test/index'') 2 (str ''markdown'') =
         (Inl (ValueError (str ''Invalid URL: a.test/index'')), [])"
  using invalid_url_rejected [of "str ''a.test/index''" web_plain "[]" 2 "str ''markdown''"]
  by (simp add: str_def)


section \<open>A base URL that is not HTML\<close>





section \<open>Extraction from an empty document\<close>

text \<open>A crawl never calls the completion service.\<close>

lemma crawl_step_no_completion:
  assumes "\<forall>p. Completion p \<notin> set (trace s)"
  shows "\<forall>p. Completion p \<notin> set (trace (crawl_step W max_depth s))"
proof (cases "queue s")
  case Nil
  then show ?thesis using assms by (simp add: crawl_step_def)
next
  case (Cons e rest)
  obtain url depth where e: "e = (url, depth)" by (cases e)
  let ?s' = "s\<lparr>queue := rest, trace := trace s @ [Dequeue url depth]\<rparr>"
  show ?thesis
  proof (cases "url \<in> visited s \<or> depth > max_depth")
    case True
    then show ?thesis using assms Cons e by (simp add: crawl_step_def)
  next
    case False
    then have st: "crawl_step W max_depth s = crawl_visit W max_depth url depth ?s'"
      using Cons e by (simp add: crawl_step_def)
    show ?thesis unfolding st
      using assms by (cases rule: crawl_visit_cases [of W max_depth url depth ?s']) auto
  qed
qed

lemma crawl_run_no_completion: "Completion p \<notin> set (trace (crawl_run W base_url max_depth))"
proof -
  have "\<forall>p. Completion p \<notin> set (trace (crawl_loop W max_depth (crawl_init base_url)))"
    by (rule crawl_loop_invariant) (simp_all add: crawl_init_def crawl_step_no_completion)
  then show ?thesis by (simp add: crawl_run_def)
qed


text \<open>
  C6. When the client could be constructed and the crawl returned a document that is
  empty after \<^verbatim>\<open>strip()\<close>, \<open>paw_extract\<close> raises
  \<^verbatim>\<open>ValueError("Content markdown is empty")\<close>, and the trace of the call holds no call
  of the completion service.
\<close>

theorem extract_empty_content:
  assumes "new_client L (if api_key = None \<or> api_key = Some [] then environ_api_key L
                         else api_key) = None"
    and "crawl W base_url max_depth (str ''markdown'') = (Inr (Markdown content_markdown), tr)"
    and "strip content_markdown = []"
  shows "paw_extract W L base_url api_key max_depth =
           (Inl (ValueError (str ''Content markdown is empty'')), tr)
         \<and> (\<forall>p. Completion p \<notin> set tr)"
proof -
  have "tr = trace (crawl_run W base_url max_depth)"
    using assms(2) by (simp add: crawl_def Let_def split: if_splits)
  then have "\<forall>p. Completion p \<notin> set tr"
    by (simp add: crawl_run_no_completion)
  moreover have "paw_extract W L base_url api_key max_depth =
           (Inl (ValueError (str ''Content markdown is empty'')), tr)"
    using assms by (simp add: paw_extract_def Let_def)
  ultimately show ?thesis by simp
qed


text \<open>The theorem for \<open>web_plain\<close>, whose crawl returns the empty document.\<close>

theorem extract_empty_content_witness:
  "new_client llm_echo (environ_api_key llm_echo) = None
   \<and> crawl web_plain url_a 0 (str ''markdown'') =
       (Inr (Markdown []),
        [Enqueue url_a 0, Dequeue url_a 0, Mark url_a,
         Fetch url_a (Response None (Some (str ''text/plain'')) (str ''hello''))])
   \<and> strip [] = []
   \<and> paw_extract web_plain llm_echo url_a None 0 =
       (Inl (ValueError (str ''Content markdown is empty'')),
        [Enqueue url_a 0, Dequeue url_a 0, Mark url_a,
         Fetch url_a (Response None (Some (str ''text/plain'')) (str ''hello''))])
   \<and> (\<forall>p. Completion p \<notin> set
        [Enqueue url_a 0, Dequeue url_a 0, Mark url_a,
         Fetch url_a (Response None (Some (str ''text/plain'')) (str ''hello''))])"
proof -
  let ?tr = "[Enqueue url_a 0, Dequeue url_a 0, Mark url_a,
         Fetch url_a (Response None (Some (str ''text/plain'')) (str ''hello''))]"
  have h1: "new_client llm_echo (if (None::pystr option) = None \<or> (None::pystr option) = Some []
              then environ_api_key llm_echo else None) = None"
    by (simp add: llm_echo_def)
  have "\<not> html_ok (http_get web_plain 0 url_a)"
    by (simp add: web_plain_def html_ok_def header_get_def str_def)
  then have run: "crawl_run web_plain url_a 0 =
      \<lparr>queue = [], visited = {url_a}, content_dict = [], trace = ?tr\<rparr>"
    by (simp add: crawl_run_first_fetch_not_html web_plain_def)
  have h2: "crawl web_plain url_a 0 (str ''markdown'') = (Inr (Markdown []), ?tr)"
    by (simp add: crawl_def run) (simp add: url_a_def str_def)
  have h3: "strip [] = []" by (simp add: strip_def)
  show ?thesis
    using extract_empty_content [OF h1 h2 h3] h1 h2 h3 by simp
qed


section \<open>Which links are put on the queue\<close>

text \<open>
  C4, as the specification states it: every extracted link is put on the queue,
  whether visited or not. In \<open>web_site\<close> the page \<open>url_a\<close> links to itself; it is
  processed at depth 0 below the limit 1 and stored, its own URL is among the
  extracted links, and yet \<open>(url_a, 1)\<close> is not on the queue afterwards.
\<close>

theorem visited_link_not_enqueued:
  "extract_links web_site (str ''A'') url_a = Some [url_a, url_c, url_b, url_b, url_c]
   \<and> content_dict (crawl_step web_site 1 (crawl_init url_a)) = [(url_a, str ''A'')]
   \<and> (url_a, 1) \<notin> set (queue (crawl_step web_site 1 (crawl_init url_a)))"
  by (simp add: web_site_step1 web_site_links_a web_site_urls_distinct)


text \<open>
  C4, amended. The code tests \<^verbatim>\<open>link not in visited\<close> before it appends: when a page
  below the depth limit is processed and stored and \<^verbatim>\<open>_extract_links\<close> returns its
  list, the queue gains, in document order and with repetitions, the extracted links
  that are not visited at that moment (the page's own URL is visited by then), each
  at the page's depth plus one.
\<close>

theorem crawl_step_enqueues_unvisited_links:
  assumes "queue s = (url, depth) # rest" and "url \<notin> visited s" and "depth < max_depth"
    and "http_get W (n_requests (trace s)) url = Response None ctype body"
    and "contains (str ''text/html'') (header_get ctype)"
    and "scrape W url (trace s @ [Dequeue url depth, Mark url,
                                  Fetch url (Response None ctype body)]) = (Inr markdown, tr)"
    and "extract_links W body url = Some links"
  shows "queue (crawl_step W max_depth s) =
           rest @ map (\<lambda>link. (link, depth + 1))
                    (filter (\<lambda>link. link \<notin> insert url (visited s)) links)
         \<and> content_dict (crawl_step W max_depth s) = dict_set url markdown (content_dict s)"
  using assms
  by (simp add: crawl_step_def crawl_visit_def Let_def n_requests_def enqueue_links_queue
        enqueue_links_visited enqueue_links_content)


text \<open>
  The theorem for the first iteration on \<open>web_site\<close>: \<open>url_b\<close> and \<open>url_c\<close> are each put
  on the queue twice, \<open>url_a\<close> is not.
\<close>

theorem crawl_step_enqueues_unvisited_links_witness:
  "queue (crawl_init url_a) = [(url_a, 0)]
   \<and> url_a \<notin> visited (crawl_init url_a)
   \<and> (0::int) < 1
   \<and> http_get web_site (n_requests (trace (crawl_init url_a))) url_a
       = Response None (Some (str ''text/html'')) (str ''A'')
   \<and> contains (str ''text/html'') (header_get (Some (str ''text/html'')))
   \<and> scrape web_site url_a
         (trace (crawl_init url_a) @ [Dequeue url_a 0, Mark url_a, Fetch url_a resp_a])
       = (Inr (str ''A''),
          trace (crawl_init url_a) @ [Dequeue url_a 0, Mark url_a, Fetch url_a resp_a,
                                     Fetch url_a resp_a])
   \<and> extract_links web_site (str ''A'') url_a = Some [url_a, url_c, url_b, url_b, url_c]
   \<and> queue (crawl_step web_site 1 (crawl_init url_a))
       = [(url_c, 1), (url_b, 1), (url_b, 1), (url_c, 1)]
   \<and> content_dict (crawl_step web_site 1 (crawl_init url_a)) = [(url_a, str ''A'')]"
proof -
  let ?s = "crawl_init url_a"
  have h1: "queue ?s = (url_a, 0) # []" by (simp add: crawl_init_def)
  have h2: "url_a \<notin> visited ?s" by (simp add: crawl_init_def)
  have h3: "(0::int) < 1" by simp
  have h4: "http_get web_site (n_requests (trace ?s)) url_a
              = Response None (Some (str ''text/html'')) (str ''A'')"
    by (simp add: web_site_get resp_a_def)
  have h5: "contains (str ''text/html'') (header_get (Some (str ''text/html'')))"
    by (simp add: header_get_def str_def)
  have h6: "scrape web_site url_a
              (trace ?s @ [Dequeue url_a 0, Mark url_a,
                           Fetch url_a (Response None (Some (str ''text/html'')) (str ''A''))])
            = (Inr (str ''A''),
               trace ?s @ [Dequeue url_a 0, Mark url_a, Fetch url_a resp_a, Fetch url_a resp_a])"
    by (simp add: web_site_scrape resp_a_def)
  have h7: "extract_links web_site (str ''A'') url_a = Some [url_a, url_c, url_b, url_b, url_c]"
    by (rule web_site_links_a)
  show ?thesis
    using crawl_step_enqueues_unvisited_links [OF h1 h2 h3 h4 h5 h6 h7] h1 h2 h4 h5 h6 h7
    by (simp add: web_site_urls_distinct crawl_init_def resp_a_def)
qed

text \<open>
  When \<^verbatim>\<open>_extract_links\<close> raises instead, the page stays stored and the queue gains
  nothing: so it is in \<open>web_bad\<close>, where \<^verbatim>\<open>urljoin\<close> raises on the first link of the
  page and the second link, \<open>url_b\<close>, is never looked at.
\<close>

lemma crawl_step_extraction_raises:
  assumes "queue s = (url, depth) # rest" and "url \<notin> visited s" and "depth < max_depth"
    and "http_get W (n_requests (trace s)) url = Response None ctype body"
    and "contains (str ''text/html'') (header_get ctype)"
    and "scrape W url (trace s @ [Dequeue url depth, Mark url,
                                  Fetch url (Response None ctype body)]) = (Inr markdown, tr)"
    and "extract_links W body url = None"
  shows "queue (crawl_step W max_depth s) = rest
         \<and> content_dict (crawl_step W max_depth s) = dict_set url markdown (content_dict s)"
  using assms
  by (simp add: crawl_step_def crawl_visit_def Let_def n_requests_def)

lemma web_bad_first_step:
  "extract_links web_bad (str ''A'') url_a = None
   \<and> queue (crawl_step web_bad 1 (crawl_init url_a)) = []
   \<and> content_dict (crawl_step web_bad 1 (crawl_init url_a)) = [(url_a, str ''A'')]"
proof -
  let ?s = "crawl_init url_a"
  have h1: "queue ?s = (url_a, 0) # []" by (simp add: crawl_init_def)
  have h2: "url_a \<notin> visited ?s" by (simp add: crawl_init_def)
  have h3: "(0::int) < 1" by simp
  have h4: "http_get web_bad (n_requests (trace ?s)) url_a
              = Response None (Some (str ''text/html'')) (str ''A'')"
    by (simp add: web_bad_def resp_a_def)
  have h5: "contains (str ''text/html'') (header_get (Some (str ''text/html'')))"
    by (simp add: header_get_def str_def)
  have h6: "scrape web_bad url_a
              (trace ?s @ [Dequeue url_a 0, Mark url_a,
                           Fetch url_a (Response None (Some (str ''text/html'')) (str ''A''))])
            = (Inr (str ''A''),
               trace ?s @ [Dequeue url_a 0, Mark url_a, Fetch url_a resp_a, Fetch url_a resp_a])"
    using h5
    by (simp add: scrape_def web_site_urls_http Let_def web_bad_def resp_a_def)
       (simp add: clean_markdown_def strip_def isspace_def NL_def SP_def str_def)
  have h7: "extract_links web_bad (str ''A'') url_a = None"
    by (simp add: extract_links_def web_bad_def str_def)
  show ?thesis
    using crawl_step_extraction_raises [OF h1 h2 h3 h4 h5 h6 h7] h7
    by (simp add: crawl_init_def)
qed


section \<open>Depths on the queue\<close>

text \<open>
  The trace accounts for the queue: the loop ends with an empty queue, and by then
  the entries that were put on the queue are exactly those that were taken from it,
  in the same order.
\<close>

lemma enqueued_append: "enqueued (xs @ ys) = enqueued xs @ enqueued ys"
  by (induction xs rule: enqueued.induct) simp_all

lemma dequeued_append: "dequeued (xs @ ys) = dequeued xs @ dequeued ys"
  by (induction xs rule: dequeued.induct) simp_all

lemma enqueued_enqueues: "enqueued (map (\<lambda>l. Enqueue l d) links) = map (\<lambda>l. (l, d)) links"
  by (induction links) simp_all

lemma dequeued_enqueues: "dequeued (map (\<lambda>l. Enqueue l d) links) = []"
  by (induction links) simp_all

lemma fifo_inv_step:
  assumes "fifo_inv s" and "queue s \<noteq> []"
  shows "fifo_inv (crawl_step W max_depth s)"
  using assms(2)
proof (cases rule: crawl_step_cases [of s max_depth W])
  case (skip url depth rest)
  then show ?thesis using assms(1)
    by (simp add: fifo_inv_def enqueued_append dequeued_append)
next
  case (visit1 url depth rest r1)
  then show ?thesis using assms(1)
    by (simp add: fifo_inv_def enqueued_append dequeued_append)
next
  case (visit2 url depth rest r1 r2)
  then show ?thesis using assms(1)
    by (simp add: fifo_inv_def enqueued_append dequeued_append)
next
  case (visit3 url depth rest r1 r2 markdown links)
  then show ?thesis using assms(1)
    by (simp add: fifo_inv_def enqueued_append dequeued_append enqueued_enqueues
          dequeued_enqueues)
qed

lemma crawl_loop_queue_empty: "queue (crawl_loop W max_depth s) = []"
proof (induction W max_depth s rule: crawl_loop.induct)
  case (1 W max_depth s)
  show ?case
  proof (cases "queue s = []")
    case True
    then show ?thesis by (simp add: crawl_loop_done)
  next
    case False
    then show ?thesis using 1 by (simp add: crawl_loop_unfold)
  qed
qed

lemma crawl_run_fifo:
  "enqueued (trace (crawl_run W base_url max_depth))
     = dequeued (trace (crawl_run W base_url max_depth))"
proof -
  have "fifo_inv (crawl_init base_url)"
    by (simp add: fifo_inv_def crawl_init_def)
  then have "fifo_inv (crawl_loop W max_depth (crawl_init base_url))"
    by (rule crawl_loop_invariant) (rule fifo_inv_step)
  then show ?thesis
    by (simp add: fifo_inv_def crawl_run_def crawl_loop_queue_empty)
qed


lemma depth_inv_step:
  assumes "depth_inv max_depth s" and "queue s \<noteq> []"
  shows "depth_inv max_depth (crawl_step W max_depth s)"
  using assms(2)
proof (cases rule: crawl_step_cases [of s max_depth W])
  case (skip url depth rest)
  then show ?thesis using assms(1) by (auto simp: depth_inv_def)
next
  case (visit1 url depth rest r1)
  then show ?thesis using assms(1) by (auto simp: depth_inv_def)
next
  case (visit2 url depth rest r1 r2)
  then show ?thesis using assms(1) by (auto simp: depth_inv_def)
next
  case (visit3 url depth rest r1 r2 markdown links)
  have "e \<in> set links \<Longrightarrow> depth + 1 \<le> max_depth" for e
    using visit3(5) by (cases links) auto
  then show ?thesis using assms(1) visit3 by (auto simp: depth_inv_def)
qed


text \<open>
  C10. With a depth limit that is not negative, every entry ever put on the queue
  and every entry ever taken from it has a depth within the limit, so the test
  \<^verbatim>\<open>depth > max_depth\<close> at the head of the loop never discards an entry.
\<close>

theorem queue_depth_bounded:
  assumes "0 \<le> max_depth"
  shows "(Enqueue u d \<in> set (trace (crawl_run W base_url max_depth)) \<longrightarrow> d \<le> max_depth)
       \<and> (Dequeue u d \<in> set (trace (crawl_run W base_url max_depth)) \<longrightarrow> d \<le> max_depth)"
proof -
  have "depth_inv max_depth (crawl_init base_url)"
    using assms by (simp add: depth_inv_def crawl_init_def)
  then have "depth_inv max_depth (crawl_loop W max_depth (crawl_init base_url))"
    by (rule crawl_loop_invariant) (rule depth_inv_step)
  then show ?thesis by (simp add: depth_inv_def crawl_run_def)
qed


text \<open>The theorem for the entry \<open>(url_c, 1)\<close> of the crawl of \<open>web_site\<close>.\<close>

theorem queue_depth_bounded_witness:
  "(0::int) \<le> 1
   \<and> Enqueue url_c 1 \<in> set (trace (crawl_run web_site url_a 1)) \<and> (1::int) \<le> 1
   \<and> Dequeue url_c 1 \<in> set (trace (crawl_run web_site url_a 1))"
  using queue_depth_bounded [of 1 url_c 1 web_site url_a]
  by (simp add: web_site_run)



section \<open>Stored pages and the depth limit\<close>

lemma set_dict_set: "set (dict_set k v kvs) \<subseteq> insert (k, v) (set kvs)"
  by (induction k v kvs rule: dict_set.induct) auto

lemma fetches_of_append: "fetches_of u (xs @ ys) = fetches_of u xs @ fetches_of u ys"
  by (induction u xs rule: fetches_of.induct) simp_all

lemma fetches_of_enqueues: "fetches_of u (map (\<lambda>l. Enqueue l d) links) = []"
  by (induction links) simp_all

lemma count_mark_enqueues: "count_list (map (\<lambda>l. Enqueue l d) links) (Mark u) = 0"
  by (induction links) simp_all

lemma store_inv_step:
  assumes "store_inv max_depth s" and "queue s \<noteq> []"
  shows "store_inv max_depth (crawl_step W max_depth s)"
  using assms(2)
proof (cases rule: crawl_step_cases [of s max_depth W])
  case (skip url depth rest)
  then show ?thesis using assms(1) by (auto simp: store_inv_def)
next
  case (visit1 url depth rest r1)
  then show ?thesis using assms(1) by (auto simp: store_inv_def)
next
  case (visit2 url depth rest r1 r2)
  then show ?thesis using assms(1) by (auto simp: store_inv_def)
next
  case (visit3 url depth rest r1 r2 markdown links)
  have "(u, c) \<in> set (dict_set url markdown (content_dict s)) \<Longrightarrow>
          u = url \<or> (u, c) \<in> set (content_dict s)" for u c
    using set_dict_set [of url markdown "content_dict s"] by auto
  then show ?thesis using assms(1) visit3(3,6) by (fastforce simp: store_inv_def)
qed


text \<open>With the depth limit 0 the loop ends after its first iteration.\<close>

lemma crawl_run_depth0: "crawl_run W base_url 0 = crawl_step W 0 (crawl_init base_url)"
proof -
  let ?s = "crawl_init base_url"
  have ne: "queue ?s \<noteq> []" by (simp add: crawl_init_def)
  have "queue (crawl_step W 0 ?s) = []"
    using ne
  proof (cases rule: crawl_step_cases [of ?s 0 W])
    case (visit3 url depth rest r1 r2 markdown links)
    then have "depth = 0" and "rest = []" by (simp_all add: crawl_init_def)
    then have "links = []" using visit3(5) by auto
    then show ?thesis using visit3(6) \<open>rest = []\<close> by simp
  qed (simp_all add: crawl_init_def)
  then have "crawl_loop W 0 (crawl_step W 0 ?s) = crawl_step W 0 ?s"
    by (rule crawl_loop_done)
  then show ?thesis
    unfolding crawl_run_def using crawl_loop_unfold [OF ne, of W 0] by simp
qed

lemma crawl_depth0_trace:
  "(Fetch u r \<in> set (trace (crawl_run W base_url 0)) \<longrightarrow> u = base_url)
   \<and> (Enqueue u d \<in> set (trace (crawl_run W base_url 0)) \<longrightarrow> u = base_url \<and> d = 0)"
proof -
  let ?s = "crawl_init base_url"
  have ne: "queue ?s \<noteq> []" by (simp add: crawl_init_def)
  have "(Fetch u r \<in> set (trace (crawl_step W 0 ?s)) \<longrightarrow> u = base_url)
   \<and> (Enqueue u d \<in> set (trace (crawl_step W 0 ?s)) \<longrightarrow> u = base_url \<and> d = 0)"
    using ne
  proof (cases rule: crawl_step_cases [of ?s 0 W])
    case (visit3 url depth rest r1 r2 markdown links)
    then have "depth = 0" and "url = base_url" by (simp_all add: crawl_init_def)
    then have "links = []" using visit3(5) by auto
    then show ?thesis using visit3(6) \<open>url = base_url\<close> by (auto simp: crawl_init_def)
  qed (auto simp: crawl_init_def)
  then show ?thesis by (simp only: crawl_run_depth0)
qed


text \<open>
  C5. Every page of the result was stored while a queue entry of depth at most
  \<^verbatim>\<open>max_depth\<close> was processed (this holds for every limit, negative ones included,
  for which nothing is stored). With the limit 0 every request goes to the base URL
  and nothing but the base URL is ever put on the queue.
\<close>

theorem stored_pages_within_depth:
  "((u, c) \<in> set (content_dict (crawl_run W base_url max_depth)) \<longrightarrow>
      (\<exists>d. Store u d \<in> set (trace (crawl_run W base_url max_depth))))
   \<and> (Store u d \<in> set (trace (crawl_run W base_url max_depth)) \<longrightarrow>
        d \<le> max_depth \<and> Dequeue u d \<in> set (trace (crawl_run W base_url max_depth)))
   \<and> (Fetch u r \<in> set (trace (crawl_run W base_url 0)) \<longrightarrow> u = base_url)
   \<and> (Enqueue u d \<in> set (trace (crawl_run W base_url 0)) \<longrightarrow> u = base_url \<and> d = 0)"
proof -
  have "store_inv max_depth (crawl_init base_url)"
    by (simp add: store_inv_def crawl_init_def)
  then have "store_inv max_depth (crawl_loop W max_depth (crawl_init base_url))"
    by (rule crawl_loop_invariant) (rule store_inv_step)
  then show ?thesis
    using crawl_depth0_trace [of u r W base_url d]
    unfolding store_inv_def crawl_run_def by blast
qed


text \<open>The crawl of \<open>web_site\<close> with the limit 0, and the theorem for both crawls.\<close>

lemma web_site_run0:
  "crawl_run web_site url_a 0 =
     \<lparr>queue = [], visited = {url_a}, content_dict = [(url_a, str ''A'')],
      trace = [Enqueue url_a 0, Dequeue url_a 0, Mark url_a, Fetch url_a resp_a,
               Fetch url_a resp_a, Store url_a 0]\<rparr>"
  by (simp add: crawl_run_depth0 crawl_step_def crawl_init_def web_site_visit_a)

theorem stored_pages_within_depth_witness:
  "(url_b, str ''B'') \<in> set (content_dict (crawl_run web_site url_a 1))
   \<and> Store url_b 1 \<in> set (trace (crawl_run web_site url_a 1))
   \<and> (1::int) \<le> 1
   \<and> Dequeue url_b 1 \<in> set (trace (crawl_run web_site url_a 1))
   \<and> Fetch url_a resp_a \<in> set (trace (crawl_run web_site url_a 0))
   \<and> Enqueue url_a 0 \<in> set (trace (crawl_run web_site url_a 0))
   \<and> content_dict (crawl_run web_site url_a 0) = [(url_a, str ''A'')]"
  using stored_pages_within_depth [of url_b "str ''B''" web_site url_a 1 1 resp_b]
    stored_pages_within_depth [of url_a "str ''A''" web_site url_a 0 0 resp_a]
  by (simp add: web_site_run web_site_run0)


section \<open>Requests per URL\<close>

lemma fetch_inv_step:
  assumes "fetch_inv s" and "queue s \<noteq> []"
  shows "fetch_inv (crawl_step W max_depth s)"
  using assms(2)
proof (cases rule: crawl_step_cases [of s max_depth W])
  case (skip url depth rest)
  then show ?thesis using assms(1) by (simp add: fetch_inv_def fetches_of_append)
next
  case (visit1 url depth rest r1)
  have old: "fetches_of url (trace s) = []" "count_list (trace s) (Mark url) = 0"
    using assms(1) visit1(2) by (simp_all add: fetch_inv_def)
  show ?thesis
    unfolding fetch_inv_def
  proof (intro allI)
    fix u
    show "(u \<notin> visited (crawl_step W max_depth s) \<longrightarrow>
            fetches_of u (trace (crawl_step W max_depth s)) = [] \<and>
            count_list (trace (crawl_step W max_depth s)) (Mark u) = 0)
        \<and> count_list (trace (crawl_step W max_depth s)) (Mark u) \<le> 1
        \<and> (fetches_of u (trace (crawl_step W max_depth s)) = []
            \<or> (\<exists>r. fetches_of u (trace (crawl_step W max_depth s)) = [r])
            \<or> (\<exists>r1 r2. fetches_of u (trace (crawl_step W max_depth s)) = [r1, r2] \<and> html_ok r1))"
      using assms(1) [unfolded fetch_inv_def, rule_format, of u] old
      by (cases "u = url") (simp_all add: visit1(4) fetches_of_append)
  qed
next
  case (visit2 url depth rest r1 r2)
  have old: "fetches_of url (trace s) = []" "count_list (trace s) (Mark url) = 0"
    using assms(1) visit2(2) by (simp_all add: fetch_inv_def)
  show ?thesis
    unfolding fetch_inv_def
  proof (intro allI)
    fix u
    show "(u \<notin> visited (crawl_step W max_depth s) \<longrightarrow>
            fetches_of u (trace (crawl_step W max_depth s)) = [] \<and>
            count_list (trace (crawl_step W max_depth s)) (Mark u) = 0)
        \<and> count_list (trace (crawl_step W max_depth s)) (Mark u) \<le> 1
        \<and> (fetches_of u (trace (crawl_step W max_depth s)) = []
            \<or> (\<exists>r. fetches_of u (trace (crawl_step W max_depth s)) = [r])
            \<or> (\<exists>r1 r2. fetches_of u (trace (crawl_step W max_depth s)) = [r1, r2] \<and> html_ok r1))"
      using assms(1) [unfolded fetch_inv_def, rule_format, of u] old visit2(4)
      by (cases "u = url") (simp_all add: visit2(5) fetches_of_append)
  qed
next
  case (visit3 url depth rest r1 r2 markdown links)
  have old: "fetches_of url (trace s) = []" "count_list (trace s) (Mark url) = 0"
    using assms(1) visit3(2) by (simp_all add: fetch_inv_def)
  show ?thesis
    unfolding fetch_inv_def
  proof (intro allI)
    fix u
    show "(u \<notin> visited (crawl_step W max_depth s) \<longrightarrow>
            fetches_of u (trace (crawl_step W max_depth s)) = [] \<and>
            count_list (trace (crawl_step W max_depth s)) (Mark u) = 0)
        \<and> count_list (trace (crawl_step W max_depth s)) (Mark u) \<le> 1
        \<and> (fetches_of u (trace (crawl_step W max_depth s)) = []
            \<or> (\<exists>r. fetches_of u (trace (crawl_step W max_depth s)) = [r])
            \<or> (\<exists>r1 r2. fetches_of u (trace (crawl_step W max_depth s)) = [r1, r2] \<and> html_ok r1))"
      using assms(1) [unfolded fetch_inv_def, rule_format, of u] old visit3(4)
      by (cases "u = url")
         (simp_all add: visit3(6) fetches_of_append fetches_of_enqueues count_mark_enqueues)
  qed
qed


text \<open>
  C1, as the specification states it: at most one request per URL and crawl. The
  crawl of \<open>web_site\<close> requests \<open>url_a\<close> twice: once in the loop of \<^verbatim>\<open>crawl\<close>, and once
  more in \<^verbatim>\<open>scrape\<close>, which the loop calls for the markdown.
\<close>

theorem page_fetched_twice:
  "fetches_of url_a (snd (crawl web_site url_a 1 (str ''markdown''))) = [resp_a, resp_a]"
  by (simp add: crawl_def web_site_urls_http web_site_run web_site_urls_distinct)


text \<open>
  C1, amended. Every URL is marked visited, and so processed, at most once in a
  crawl; at most two requests are made for it, and a second one only after the first
  was answered without error status and with an HTML content type.
\<close>

theorem at_most_two_fetches_per_url:
  "count_list (trace (crawl_run W base_url max_depth)) (Mark u) \<le> 1
   \<and> (fetches_of u (trace (crawl_run W base_url max_depth)) = []
      \<or> (\<exists>r. fetches_of u (trace (crawl_run W base_url max_depth)) = [r])
      \<or> (\<exists>r1 r2. fetches_of u (trace (crawl_run W base_url max_depth)) = [r1, r2]
                   \<and> html_ok r1))"
proof -
  have "fetch_inv (crawl_init base_url)"
    by (simp add: fetch_inv_def crawl_init_def)
  then have "fetch_inv (crawl_loop W max_depth (crawl_init base_url))"
    by (rule crawl_loop_invariant) (rule fetch_inv_step)
  then show ?thesis
    unfolding fetch_inv_def crawl_run_def by blast
qed


text \<open>The theorem for \<open>url_a\<close> in the crawl of \<open>web_site\<close>.\<close>

theorem at_most_two_fetches_per_url_witness:
  "count_list (trace (crawl_run web_site url_a 1)) (Mark url_a) = 1
   \<and> fetches_of url_a (trace (crawl_run web_site url_a 1)) = [resp_a, resp_a]
   \<and> html_ok resp_a
   \<and> fetches_of url_c (trace (crawl_run web_site url_a 1))
       = [RequestException (str ''timed out'')]"
  using at_most_two_fetches_per_url [of web_site url_a 1 url_a]
  by (simp add: web_site_run web_site_html web_site_urls_distinct)


section \<open>Marking before fetching\<close>

lemma fetches_of_empty_iff: "fetches_of u tr = [] \<longleftrightarrow> (\<forall>r. Fetch u r \<notin> set tr)"
  by (induction u tr rule: fetches_of.induct) auto

lemma marked_before_append:
  "marked_before M (xs @ ys) \<longleftrightarrow>
     marked_before M xs \<and> marked_before (M \<union> {u. Mark u \<in> set xs}) ys"
proof (induction M xs rule: marked_before.induct)
  case (2 M u tr)
  have "insert u M \<union> {v. Mark v \<in> set tr} = M \<union> {v. Mark v \<in> set (Mark u # tr)}"
    by auto
  then show ?case using 2 by simp
qed auto

lemma marked_before_enqueues: "marked_before M (map (\<lambda>l. Enqueue l d) links)"
  by (induction links) simp_all

lemma marked_before_split:
  "marked_before M tr \<Longrightarrow> tr = pre @ Fetch u r # post \<Longrightarrow> u \<in> M \<or> Mark u \<in> set pre"
proof (induction pre arbitrary: M tr)
  case Nil
  then show ?case by simp
next
  case (Cons e pre)
  then obtain tr' where tr: "tr = e # tr'" and tr': "tr' = pre @ Fetch u r # post" by simp
  show ?case
  proof (cases e)
    case (Mark v)
    then have "marked_before (insert v M) tr'" using Cons.prems(1) tr by simp
    from Cons.IH [OF this tr'] show ?thesis using Mark by auto
  next
    case (Fetch v q)
    then have "marked_before M tr'" using Cons.prems(1) tr by simp
    from Cons.IH [OF this tr'] show ?thesis by auto
  next
    case (Enqueue v d)
    then have "marked_before M tr'" using Cons.prems(1) tr by simp
    from Cons.IH [OF this tr'] show ?thesis by auto
  next
    case (Dequeue v d)
    then have "marked_before M tr'" using Cons.prems(1) tr by simp
    from Cons.IH [OF this tr'] show ?thesis by auto
  next
    case (Store v d)
    then have "marked_before M tr'" using Cons.prems(1) tr by simp
    from Cons.IH [OF this tr'] show ?thesis by auto
  next
    case (Completion p)
    then have "marked_before M tr'" using Cons.prems(1) tr by simp
    from Cons.IH [OF this tr'] show ?thesis by auto
  qed
qed

lemma no_retry_append:
  "no_retry (xs @ ys) \<longleftrightarrow>
     no_retry xs \<and> no_retry ys
     \<and> (\<forall>u r. Fetch u r \<in> set xs \<and> failed r \<longrightarrow> fetches_of u ys = [])"
  by (induction xs rule: no_retry.induct) (auto simp: fetches_of_append)

lemma no_retry_enqueues: "no_retry (map (\<lambda>l. Enqueue l d) links)"
  by (induction links) simp_all

lemma no_retry_split:
  "no_retry tr \<Longrightarrow> tr = pre @ Fetch u r # post \<Longrightarrow> failed r \<Longrightarrow> Fetch u r' \<notin> set post"
proof (induction pre arbitrary: tr)
  case Nil
  then show ?case by (simp add: fetches_of_empty_iff)
next
  case (Cons e pre)
  then obtain tr' where tr: "tr = e # tr'" and tr': "tr' = pre @ Fetch u r # post" by simp
  have "no_retry tr'" using Cons.prems(1) tr by (cases e) simp_all
  from Cons.IH [OF this tr' Cons.prems(3)] show ?case .
qed

lemma html_ok_not_failed: "html_ok r \<Longrightarrow> \<not> failed r"
  by (auto simp: html_ok_def failed_def split: http_result.splits)

lemma order_inv_step:
  assumes "order_inv s" and "queue s \<noteq> []"
  shows "order_inv (crawl_step W max_depth s)"
  using assms(2)
proof (cases rule: crawl_step_cases [of s max_depth W])
  case (skip url depth rest)
  then show ?thesis using assms(1)
    by (simp add: order_inv_def fetches_of_append marked_before_append no_retry_append)
next
  case (visit1 url depth rest r1)
  have cross: "Fetch u r \<in> set (trace s) \<Longrightarrow> u \<noteq> url" for u r
    using assms(1) visit1(2) by (auto simp: order_inv_def fetches_of_empty_iff)
  show ?thesis using assms(1) cross
    by (auto simp: visit1(4) order_inv_def fetches_of_append marked_before_append
          no_retry_append)
next
  case (visit2 url depth rest r1 r2)
  have cross: "Fetch u r \<in> set (trace s) \<Longrightarrow> u \<noteq> url" for u r
    using assms(1) visit2(2) by (auto simp: order_inv_def fetches_of_empty_iff)
  show ?thesis using assms(1) cross html_ok_not_failed [OF visit2(4)]
    by (auto simp: visit2(5) order_inv_def fetches_of_append marked_before_append
          no_retry_append)
next
  case (visit3 url depth rest r1 r2 markdown links)
  have cross: "Fetch u r \<in> set (trace s) \<Longrightarrow> u \<noteq> url" for u r
    using assms(1) visit3(2) by (auto simp: order_inv_def fetches_of_empty_iff)
  show ?thesis using assms(1) cross html_ok_not_failed [OF visit3(4)]
    by (auto simp: visit3(6) order_inv_def fetches_of_append fetches_of_enqueues
          marked_before_append marked_before_enqueues no_retry_append no_retry_enqueues)
qed


text \<open>
  C9. Wherever a request for a URL stands in the trace of a crawl, the URL was
  marked visited before it; and after a request that failed (the request raised, or
  the status is an error status) no further request for that URL follows.
\<close>

theorem mark_before_fetch_and_no_retry:
  assumes "trace (crawl_run W base_url max_depth) = pre @ Fetch u r # post"
  shows "Mark u \<in> set pre
         \<and> u \<in> visited (crawl_run W base_url max_depth)
         \<and> (failed r \<longrightarrow> (\<forall>r'. Fetch u r' \<notin> set post))"
proof -
  have "order_inv (crawl_init base_url)"
    by (simp add: order_inv_def crawl_init_def)
  then have "order_inv (crawl_loop W max_depth (crawl_init base_url))"
    by (rule crawl_loop_invariant) (rule order_inv_step)
  then have inv: "order_inv (crawl_run W base_url max_depth)"
    by (simp add: crawl_run_def)
  have mb: "marked_before {} (trace (crawl_run W base_url max_depth))"
    and nr: "no_retry (trace (crawl_run W base_url max_depth))"
    using inv by (simp_all add: order_inv_def)
  have m: "Mark u \<in> set pre"
    using marked_before_split [OF mb assms] by simp
  then have "Mark u \<in> set (trace (crawl_run W base_url max_depth))"
    using assms by simp
  then have v: "u \<in> visited (crawl_run W base_url max_depth)"
    using inv by (simp add: order_inv_def)
  have "failed r \<Longrightarrow> Fetch u r' \<notin> set post" for r'
    using no_retry_split [OF nr assms] by simp
  then show ?thesis using m v by blast
qed


text \<open>
  The theorem for the request to \<open>url_c\<close> in the crawl of \<open>web_site\<close>: it times out,
  and the second queue entry for \<open>url_c\<close> is taken from the queue without a request.
\<close>

theorem mark_before_fetch_and_no_retry_witness:
  "trace (crawl_run web_site url_a 1) =
     [Enqueue url_a 0, Dequeue url_a 0, Mark url_a, Fetch url_a resp_a,
      Fetch url_a resp_a, Store url_a 0, Enqueue url_c 1, Enqueue url_b 1,
      Enqueue url_b 1, Enqueue url_c 1, Dequeue url_c 1, Mark url_c]
     @ Fetch url_c (RequestException (str ''timed out''))
     # [Dequeue url_b 1, Mark url_b, Fetch url_b resp_b, Fetch url_b resp_b, Store url_b 1,
        Dequeue url_b 1, Dequeue url_c 1]
   \<and> failed (RequestException (str ''timed out''))
   \<and> Mark url_c \<in> set
        [Enqueue url_a 0, Dequeue url_a 0, Mark url_a, Fetch url_a resp_a,
         Fetch url_a resp_a, Store url_a 0, Enqueue url_c 1, Enqueue url_b 1,
         Enqueue url_b 1, Enqueue url_c 1, Dequeue url_c 1, Mark url_c]
   \<and> url_c \<in> visited (crawl_run web_site url_a 1)
   \<and> (\<forall>r'. Fetch url_c r' \<notin> set
        [Dequeue url_b 1, Mark url_b, Fetch url_b resp_b, Fetch url_b resp_b, Store url_b 1,
         Dequeue url_b 1, Dequeue url_c 1])"
proof -
  have h: "trace (crawl_run web_site url_a 1) =
     [Enqueue url_a 0, Dequeue url_a 0, Mark url_a, Fetch url_a resp_a,
      Fetch url_a resp_a, Store url_a 0, Enqueue url_c 1, Enqueue url_b 1,
      Enqueue url_b 1, Enqueue url_c 1, Dequeue url_c 1, Mark url_c]
     @ Fetch url_c (RequestException (str ''timed out''))
     # [Dequeue url_b 1, Mark url_b, Fetch url_b resp_b, Fetch url_b resp_b, Store url_b 1,
        Dequeue url_b 1, Dequeue url_c 1]"
    by (simp add: web_site_run)
  have f: "failed (RequestException (str ''timed out''))" by (simp add: failed_def)
  show ?thesis
    using mark_before_fetch_and_no_retry [OF h] h f by simp
qed


end
